theory Spec2Isabelle
  imports Main "HOL-Library.Char_ord" "HOL-Library.List_Lexorder"
    "HOL-Library.Product_Lexorder" "HOL-Library.Sublist"
begin

section \<open>Strings\<close>

text \<open>
  A Python \<open>str\<close> is modelled as a \<open>string\<close>: a list of characters, one \<open>char\<close> per code
  point, read as the code points U+0000 to U+00FF. On that range \<open>\d\<close> is \<open>[0-9]\<close>, and
  \<open>str.strip()\<close> removes the characters for which \<open>str.isspace\<close> holds: 9 to 13, 28 to 32,
  133 and 160.
\<close>

definition isspace :: "char \<Rightarrow> bool" where
  "isspace c = (of_char c \<in> {9, 10, 11, 12, 13, 28, 29, 30, 31, 32, 133, 160 :: nat})"

definition lstrip :: "string \<Rightarrow> string" where
  "lstrip s = dropWhile isspace s"

definition rstrip :: "string \<Rightarrow> string" where
  "rstrip s = rev (dropWhile isspace (rev s))"

text \<open>\<open>s.strip()\<close>\<close>

definition strip :: "string \<Rightarrow> string" where
  "strip s = rstrip (lstrip s)"

text \<open>\<open>s.rstrip(chars)\<close>\<close>

definition rstrip_chars :: "string \<Rightarrow> string \<Rightarrow> string" where
  "rstrip_chars chars s = rev (dropWhile (\<lambda>c. c \<in> set chars) (rev s))"

text \<open>\<open>s.startswith(p)\<close>\<close>

definition startswith :: "string \<Rightarrow> string \<Rightarrow> bool" where
  "startswith s p = (take (length p) s = p)"

text \<open>
  \<open>s.replace(old, new)\<close>: every occurrence of \<open>old\<close>, found from the left and not
  overlapping, becomes \<open>new\<close>. With an empty \<open>old\<close>, \<open>new\<close> is put before every character
  and at the end.
\<close>

function replace :: "string \<Rightarrow> string \<Rightarrow> string \<Rightarrow> string" where
  "replace [] old new = (if old = [] then new else [])"
| "replace (c # cs) old new =
     (if old = [] then new @ c # replace cs old new
      else if startswith (c # cs) old then new @ replace (drop (length old) (c # cs)) old new
      else c # replace cs old new)"
  by pat_completeness auto
termination
  by (relation "measure (\<lambda>(s, old, new). length s)") auto

text \<open>\<open>item in s\<close> for two strings: \<open>item\<close> occurs in \<open>s\<close> as a contiguous substring.\<close>

fun str_in :: "string \<Rightarrow> string \<Rightarrow> bool" where
  "str_in item [] = (item = [])"
| "str_in item (c # cs) = (startswith (c # cs) item \<or> str_in item cs)"

section \<open>Regular expressions\<close>

text \<open>
  The patterns of the program are terms of a datatype, and \<open>re\<close>'s backtracking matcher is
  the function \<open>run\<close>: it returns every way the pattern can match at a position, in the
  order in which backtracking tries them, so that the match \<open>re\<close> reports is the first.
\<close>

datatype citem =
    Ch char            \<comment> \<open>one character\<close>
  | Rng char char      \<comment> \<open>a range \<open>a-b\<close>\<close>
  | Dig                \<comment> \<open>\<open>\d\<close>\<close>

fun in_item :: "citem \<Rightarrow> char \<Rightarrow> bool" where
  "in_item (Ch a) c = (c = a)"
| "in_item (Rng a b) c = (a \<le> c \<and> c \<le> b)"
| "in_item Dig c = (CHR ''0'' \<le> c \<and> c \<le> CHR ''9'')"

definition in_class :: "citem list \<Rightarrow> char \<Rightarrow> bool" where
  "in_class cs c = list_ex (\<lambda>i. in_item i c) cs"

datatype regex =
    Cls "citem list"              \<comment> \<open>\<open>[...]\<close>, and a single character or \<open>\d\<close>\<close>
  | NCls "citem list"             \<comment> \<open>\<open>[^...]\<close>\<close>
  | Seq regex regex               \<comment> \<open>concatenation\<close>
  | Rep regex nat "nat option"    \<comment> \<open>greedy \<open>r{lo,hi}\<close>; \<open>None\<close> is no upper bound\<close>
  | Ahead regex                   \<comment> \<open>\<open>(?=r)\<close>\<close>
  | Behind "citem list"           \<comment> \<open>\<open>(?<=c)\<close> for one character of a class\<close>
  | Grp nat regex                 \<comment> \<open>capturing group, numbered from 0\<close>

text \<open>
  A matcher state: the text before the current position (reversed, nearest character
  first), the text from it on, and what each group has captured.
\<close>

type_synonym mstate = "string \<times> string \<times> string option list"

text \<open>
  A greedy repeat with \<open>n\<close> iterations still allowed and \<open>lo\<close> still required: one more
  iteration is tried first, stopping here is tried last.
\<close>

primrec rep :: "(mstate \<Rightarrow> mstate list) \<Rightarrow> nat \<Rightarrow> nat \<Rightarrow> mstate \<Rightarrow> mstate list" where
  "rep f lo 0 st = (if lo = 0 then [st] else [])"
| "rep f lo (Suc n) st =
     concat (map (rep f (lo - 1) n) (f st)) @ (if lo = 0 then [st] else [])"

text \<open>
  Every repeat without an upper bound in this program is over a character class, so each
  iteration consumes one character and no more iterations than characters left can match.
\<close>

primrec run :: "regex \<Rightarrow> mstate \<Rightarrow> mstate list" where
  "run (Cls cs) st =
     (case st of
        (pre, c # rest, g) \<Rightarrow> if in_class cs c then [(c # pre, rest, g)] else []
      | (pre, [], g) \<Rightarrow> [])"
| "run (NCls cs) st =
     (case st of
        (pre, c # rest, g) \<Rightarrow> if in_class cs c then [] else [(c # pre, rest, g)]
      | (pre, [], g) \<Rightarrow> [])"
| "run (Seq a b) st = concat (map (run b) (run a st))"
| "run (Rep r lo hi) st =
     rep (run r) lo
       (case hi of Some n \<Rightarrow> n | None \<Rightarrow> max lo (length (fst (snd st)))) st"
| "run (Ahead r) st = (if run r st = [] then [] else [st])"
| "run (Behind cs) st =
     (case st of
        (c # pre, rest, g) \<Rightarrow> if in_class cs c then [st] else []
      | ([], rest, g) \<Rightarrow> [])"
| "run (Grp i r) st =
     map (\<lambda>(pre', rest', g').
            (pre', rest', g'[i := Some (rev (take (length pre' - length (fst st)) pre'))]))
       (run r st)"

primrec ngroups :: "regex \<Rightarrow> nat" where
  "ngroups (Cls cs) = 0"
| "ngroups (NCls cs) = 0"
| "ngroups (Seq a b) = ngroups a + ngroups b"
| "ngroups (Rep r lo hi) = ngroups r"
| "ngroups (Ahead r) = ngroups r"
| "ngroups (Behind cs) = 0"
| "ngroups (Grp i r) = Suc (ngroups r)"

text \<open>The first match of \<open>r\<close> that starts exactly at the position after \<open>pre\<close>.\<close>

definition match_at :: "regex \<Rightarrow> string \<Rightarrow> string \<Rightarrow> mstate option" where
  "match_at r pre rest =
     (case run r (pre, rest, replicate (ngroups r) None) of
        [] \<Rightarrow> None
      | st # _ \<Rightarrow> Some st)"

text \<open>
  \<open>re.search\<close>: the leftmost position with a match. The result is the match object: the
  text before the match (reversed) and the matcher state at its end.
\<close>

fun search_from :: "regex \<Rightarrow> string \<Rightarrow> string \<Rightarrow> (string \<times> mstate) option" where
  "search_from r pre [] = map_option (Pair pre) (match_at r pre [])"
| "search_from r pre (c # cs) =
     (case match_at r pre (c # cs) of
        Some st \<Rightarrow> Some (pre, st)
      | None \<Rightarrow> search_from r (c # pre) cs)"

definition re_search :: "regex \<Rightarrow> string \<Rightarrow> (string \<times> mstate) option" where
  "re_search r s = search_from r [] s"

text \<open>\<open>m.groups()\<close>\<close>

definition groups :: "string \<times> mstate \<Rightarrow> string option list" where
  "groups m = snd (snd (snd m))"

text \<open>
  \<open>re.findall\<close> for a pattern without groups: the texts of the matches, scanning from the
  left, each search starting where the last match ended. After an empty match the scan
  moves on by one character.
\<close>

function findall_from :: "regex \<Rightarrow> string \<Rightarrow> string \<Rightarrow> string list" where
  "findall_from r pre rest =
     (case match_at r pre rest of
        None \<Rightarrow> (case rest of [] \<Rightarrow> [] | c # cs \<Rightarrow> findall_from r (c # pre) cs)
      | Some (pre', rest', g) \<Rightarrow>
          if length rest' < length rest
          then take (length rest - length rest') rest # findall_from r pre' rest'
          else [] # (case rest of [] \<Rightarrow> [] | c # cs \<Rightarrow> findall_from r (c # pre) cs))"
  by pat_completeness auto
termination
  by (relation "measure (\<lambda>(r, pre, rest). length rest)") auto

definition findall :: "regex \<Rightarrow> string \<Rightarrow> string list" where
  "findall r s = findall_from r [] s"

text \<open>
  \<open>re.sub(r, repl, s)\<close> for a replacement without group references: the text with every
  match, found as by \<open>findall\<close>, replaced.
\<close>

function sub_from :: "regex \<Rightarrow> string \<Rightarrow> string \<Rightarrow> string \<Rightarrow> string" where
  "sub_from r repl pre rest =
     (case match_at r pre rest of
        None \<Rightarrow> (case rest of [] \<Rightarrow> [] | c # cs \<Rightarrow> c # sub_from r repl (c # pre) cs)
      | Some (pre', rest', g) \<Rightarrow>
          if length rest' < length rest
          then repl @ sub_from r repl pre' rest'
          else repl @ (case rest of [] \<Rightarrow> [] | c # cs \<Rightarrow> c # sub_from r repl (c # pre) cs))"
  by pat_completeness auto
termination
  by (relation "measure (\<lambda>(r, repl, pre, rest). length rest)") auto

definition re_sub :: "regex \<Rightarrow> string \<Rightarrow> string \<Rightarrow> string" where
  "re_sub r repl s = sub_from r repl [] s"

section \<open>The event formatter\<close>

text \<open>
  The exceptions, by class, each but \<open>IndexError\<close> with its message. \<open>OSError\<close> stands for
  \<open>OSError\<close> and its subclasses other than \<open>FileNotFoundError\<close>.
\<close>

datatype exn =
    IndexError
  | FileNotFoundError string
  | ValueError string
  | OSError string
  | TypeError string
  | AttributeError string
  | OtherError string

abbreviation upper_AZ :: "citem" where "upper_AZ \<equiv> Rng CHR ''A'' CHR ''Z''"
abbreviation lower_az :: "citem" where "lower_az \<equiv> Rng CHR ''a'' CHR ''z''"
abbreviation hyphen_space :: "citem list" where "hyphen_space \<equiv> [Ch CHR ''-'', Ch CHR '' '']"

text \<open>\<^verbatim>\<open>(?<=\[)[^\[\]]+(?=\])\<close>\<close>

definition bracket_re :: regex where
  "bracket_re =
     Seq (Behind [Ch CHR ''[''])
       (Seq (Rep (NCls [Ch CHR ''['', Ch CHR '']'']) 1 None)
         (Ahead (Cls [Ch CHR '']''])))"

text \<open>
  \<^verbatim>\<open>([A-Z]{3,4}[- ]\d{4}(?:[- ][A-Z\d]{0,3}(?=[- :])){0,1})\<close>: the optional section
  suffix \<^verbatim>\<open>(?:[- ][A-Z\d]{0,3}(?=[- :]))\<close>, what the one group of the pattern encloses, and
  the pattern.
\<close>

definition suffix_re :: regex where
  "suffix_re =
     Seq (Cls hyphen_space)
       (Seq (Rep (Cls [upper_AZ, Dig]) 0 (Some 3))
         (Ahead (Cls [Ch CHR ''-'', Ch CHR '' '', Ch CHR '':''])))"

definition slug_body :: regex where
  "slug_body =
     Seq (Rep (Cls [upper_AZ]) 3 (Some 4))
       (Seq (Cls hyphen_space)
         (Seq (Rep (Cls [Dig]) 4 (Some 4))
           (Rep suffix_re 0 (Some 1))))"

definition slug_re :: regex where
  "slug_re = Grp 0 slug_body"

text \<open>\<^verbatim>\<open>[- ]*[A-Za-z]*\d[A-Za-z\d]{5,}[- ]*\<close> (random IDs)\<close>

definition random_id_re :: regex where
  "random_id_re =
     Seq (Rep (Cls hyphen_space) 0 None)
       (Seq (Rep (Cls [upper_AZ, lower_az]) 0 None)
         (Seq (Cls [Dig])
           (Seq (Rep (Cls [upper_AZ, lower_az, Dig]) 5 None)
             (Rep (Cls hyphen_space) 0 None))))"

text \<open>\<^verbatim>\<open>[- ]*[A-Z][a-z]+[- ]\d{4}[- ]*\<close> (semester identifiers)\<close>

definition semester_re :: regex where
  "semester_re =
     Seq (Rep (Cls hyphen_space) 0 None)
       (Seq (Cls [upper_AZ])
         (Seq (Rep (Cls [lower_az]) 1 None)
           (Seq (Cls hyphen_space)
             (Seq (Rep (Cls [Dig]) 4 (Some 4))
               (Rep (Cls hyphen_space) 0 None)))))"

text \<open>\<^verbatim>\<open>_Combined\<close> (combined section markers)\<close>

definition combined_re :: regex where
  "combined_re =
     Seq (Cls [Ch CHR ''_'']) (Seq (Cls [Ch CHR ''C'']) (Seq (Cls [Ch CHR ''o''])
       (Seq (Cls [Ch CHR ''m'']) (Seq (Cls [Ch CHR ''b'']) (Seq (Cls [Ch CHR ''i''])
         (Seq (Cls [Ch CHR ''n'']) (Seq (Cls [Ch CHR ''e'']) (Cls [Ch CHR ''d'']))))))))"

text \<open>
  \<open>_format_with_slug\<close>. \<open>slugs[0]\<close> raises IndexError when no slug piece is left after
  the empty ones and \<open>None\<close> are dropped.
\<close>

definition format_with_slug :: "string option list \<Rightarrow> string \<Rightarrow> exn + string" where
  "format_with_slug slugs assignment =
     (let slugs =
        map (\<lambda>s. replace s '' '' ''-'')
          (concat (map (\<lambda>s. case s of None \<Rightarrow> [] | Some t \<Rightarrow> if t = [] then [] else [t]) slugs))
      in case slugs of
           [s0] \<Rightarrow> Inr (s0 @ '': '' @ assignment)
         | [] \<Rightarrow> Inl IndexError
         | s0 # _ \<Rightarrow>
             (let base_code = take 8 s0
              in if list_all (\<lambda>s. startswith s base_code) slugs
                 then Inr (rstrip_chars ''-'' base_code @ '': '' @ assignment)
                 else Inr (s0 @ '': '' @ assignment)))"

text \<open>\<open>_clean_class_name\<close>\<close>

definition patterns :: "regex list" where
  "patterns = [random_id_re, semester_re, combined_re]"

definition clean_class_name :: "string \<Rightarrow> string \<Rightarrow> string" where
  "clean_class_name class_name assignment =
     fold (\<lambda>pattern class_name. re_sub pattern [] class_name) patterns class_name
       @ '': '' @ assignment"

text \<open>\<open>_format_event\<close>\<close>

definition format_event :: "string \<Rightarrow> exn + string" where
  "format_event event_name =
     (let class_name_matches = findall bracket_re event_name
      in if class_name_matches = [] then Inr event_name
         else
           (let class_name = last class_name_matches;
                assignment = strip (replace event_name (''['' @ class_name @ '']'') [])
            in case re_search slug_re class_name of
                 Some m \<Rightarrow> format_with_slug (groups m) assignment
               | None \<Rightarrow> Inr (clean_class_name class_name assignment)))"

section \<open>Loading, grouping and reporting\<close>

text \<open>
  A \<open>date\<close> is (year, month, day); Python compares dates in that order, which is the
  lexicographic order of the triple. An event of the calendar has a start timestamp and a
  title. \<open>Calendar\<close> gives the events of the file as the library has them: \<open>event.begin\<close>
  is \<open>None\<close> for an event without a start, \<open>event.name\<close> is \<open>None\<close> for an event
  without a title.
\<close>

type_synonym date = "nat \<times> nat \<times> nat"

record timestamp =
  date_of :: date        \<comment> \<open>\<open>.date()\<close>\<close>
  time_of :: nat         \<comment> \<open>the time of day\<close>

record event =
  ev_begin :: timestamp  \<comment> \<open>the start\<close>
  ev_name :: string      \<comment> \<open>the title\<close>

record ics_event =
  ics_begin :: "timestamp option"  \<comment> \<open>\<open>event.begin\<close>\<close>
  ics_name :: "string option"      \<comment> \<open>\<open>event.name\<close>\<close>

text \<open>An event with a start and a title, as the library has it.\<close>

definition ics_of :: "event \<Rightarrow> ics_event" where
  "ics_of e = \<lparr>ics_begin = Some (ev_begin e), ics_name = Some (ev_name e)\<rparr>"

text \<open>
  What the program reads from outside: what \<open>Path.exists()\<close> gives (a boolean, or the
  message of the \<open>OSError\<close> of \<open>stat\<close> that it raises again, as for a name that is too
  long or a directory that may not be searched), what opening and reading a file as UTF-8
  gives (the text, or the exception raised), what \<open>Calendar\<close> makes of a text (its events
  in iteration order, or the exception raised), how \<open>Path\<close> prints and how
  \<open>strftime('%B %d, %Y (%A)')\<close> prints a date.
\<close>

record world =
  path_exists :: "string \<Rightarrow> string + bool"
  read_text :: "string \<Rightarrow> exn + string"
  Calendar :: "string \<Rightarrow> exn + ics_event list"
  path_str :: "string \<Rightarrow> string"
  strftime :: "date \<Rightarrow> string"

text \<open>\<open>str(e)\<close>\<close>

fun exn_str :: "exn \<Rightarrow> string" where
  "exn_str IndexError = ''list index out of range''"
| "exn_str (FileNotFoundError m) = m"
| "exn_str (ValueError m) = m"
| "exn_str (OSError m) = m"
| "exn_str (TypeError m) = m"
| "exn_str (AttributeError m) = m"
| "exn_str (OtherError m) = m"

text \<open>
  \<open>events_by_day[event_date].append(event_details)\<close> on a \<open>defaultdict(list)\<close>: the
  dictionary is the list of its items in insertion order.
\<close>

fun dd_append :: "'k \<Rightarrow> 'a \<Rightarrow> ('k \<times> 'a list) list \<Rightarrow> ('k \<times> 'a list) list" where
  "dd_append k x [] = [(k, [x])]"
| "dd_append k x ((k', v) # kvs) =
     (if k' = k then (k', v @ [x]) # kvs else (k', v) # dd_append k x kvs)"

definition to_skip :: "string list" where
  "to_skip = [''PAL'', ''Training'']"

text \<open>
  The loop of \<open>parse_calendar\<close> over \<open>calendar.events\<close>. \<open>event.begin.date()\<close> raises
  \<open>AttributeError\<close> when \<open>event.begin\<close> is \<open>None\<close>, and \<open>item in event_details\<close> raises
  \<open>TypeError\<close> when \<open>event.name\<close> is \<open>None\<close>.
\<close>

definition no_date_attribute :: string where
  "no_date_attribute = [CHR 0x27] @ ''NoneType' object has no attribute 'date'' @ [CHR 0x27]"

definition not_iterable :: string where
  "not_iterable = ''argument of type 'NoneType' is not iterable''"

fun events_loop :: "ics_event list \<Rightarrow> (date \<times> string list) list \<Rightarrow> exn + (date \<times> string list) list" where
  "events_loop [] events_by_day = Inr events_by_day"
| "events_loop (event # rest) events_by_day =
     (case ics_begin event of
        None \<Rightarrow> Inl (AttributeError no_date_attribute)
      | Some event_begin \<Rightarrow>
          (let event_date = date_of event_begin
           in case ics_name event of
                None \<Rightarrow> Inl (TypeError not_iterable)
              | Some event_details \<Rightarrow>
                  if list_ex (\<lambda>item. str_in item event_details) to_skip
                  then events_loop rest events_by_day
                  else (case format_event event_details of
                          Inl e \<Rightarrow> Inl e
                        | Inr event_details \<Rightarrow>
                            events_loop rest
                              (dd_append event_date event_details events_by_day))))"

text \<open>
  \<open>parse_calendar\<close>, for a parser whose \<open>file_path\<close> prints as \<open>file_path\<close>. The call of
  \<open>exists\<close> and the loop over the events are outside the \<open>try\<close>: what they raise is
  raised by \<open>parse_calendar\<close>. Whatever \<open>open\<close>, \<open>read\<close> or \<open>Calendar\<close> raises is caught by
  \<open>except Exception\<close>.
\<close>

definition parse_calendar :: "world \<Rightarrow> string \<Rightarrow> exn + (date \<times> string list) list" where
  "parse_calendar w file_path =
     (case path_exists w file_path of
        Inl m \<Rightarrow> Inl (OSError m)
      | Inr found \<Rightarrow>
          if \<not> found
          then Inl (FileNotFoundError (''Could not find ICS file: '' @ file_path))
          else
            (case (case read_text w file_path of Inl e \<Rightarrow> Inl e | Inr text \<Rightarrow> Calendar w text) of
               Inl e \<Rightarrow> Inl (ValueError (''Failed to parse ICS file: '' @ exn_str e))
             | Inr events \<Rightarrow> events_loop events []))"

text \<open>
  \<open>main\<close>: the lines printed to standard output and how the process ends. The header
  \<open>print\<close> starts with a newline, so it prints an empty line and the header line. An
  exception that is neither a \<open>FileNotFoundError\<close> nor a \<open>ValueError\<close> is not caught.
\<close>

datatype ending = Exit nat | Uncaught exn

definition hint :: string where
  "hint = ''Specify a file or rename it to 'canvas_export.ics' and place in this directory.''"

definition report_error :: "exn \<Rightarrow> string list \<times> ending" where
  "report_error e =
     ([''Error: '' @ exn_str e]
        @ (if exn_str e = ''Could not find ICS file: canvas_export.ics'' then [hint] else []),
      Exit 1)"

definition render :: "world \<Rightarrow> (date \<times> string list) list \<Rightarrow> string list" where
  "render w events =
     concat (map (\<lambda>(day, day_events). [[], ''-- '' @ strftime w day @ '' --''] @ sort day_events)
               (sort events))"

definition main :: "world \<Rightarrow> string list \<Rightarrow> string list \<times> ending" where
  "main w argv =
     (let file_path = (if length argv > 1 then argv ! 1 else ''canvas_export.ics'')
      in case parse_calendar w (path_str w file_path) of
           Inr events \<Rightarrow> (render w events, Exit 0)
         | Inl (FileNotFoundError m) \<Rightarrow> report_error (FileNotFoundError m)
         | Inl (ValueError m) \<Rightarrow> report_error (ValueError m)
         | Inl e \<Rightarrow> ([], Uncaught e))"

section \<open>What a match consumes\<close>

text \<open>
  \<open>minlen r\<close> is a lower bound on the number of characters a match of \<open>r\<close> consumes.
  \<open>shape m st st'\<close>: from \<open>st\<close> the matcher has moved to \<open>st'\<close> over at least \<open>m\<close>
  characters of the text, and the number of groups is unchanged.
\<close>

primrec minlen :: "regex \<Rightarrow> nat" where
  "minlen (Cls cs) = 1"
| "minlen (NCls cs) = 1"
| "minlen (Seq a b) = minlen a + minlen b"
| "minlen (Rep r lo hi) = lo * minlen r"
| "minlen (Ahead r) = 0"
| "minlen (Behind cs) = 0"
| "minlen (Grp i r) = minlen r"

definition shape :: "nat \<Rightarrow> mstate \<Rightarrow> mstate \<Rightarrow> bool" where
  "shape m st st' =
     (\<exists>v. fst st' = rev v @ fst st \<and> fst (snd st) = v @ fst (snd st') \<and> m \<le> length v \<and>
          length (snd (snd st')) = length (snd (snd st)))"

lemma shape_refl: "shape 0 st st"
  by (simp add: shape_def)

lemma shape_trans: "shape m st st' \<Longrightarrow> shape n st' st'' \<Longrightarrow> shape (m + n) st st''"
  unfolding shape_def
proof -
  assume "\<exists>v. fst st' = rev v @ fst st \<and> fst (snd st) = v @ fst (snd st') \<and> m \<le> length v \<and>
          length (snd (snd st')) = length (snd (snd st))"
  then obtain v where v: "fst st' = rev v @ fst st" "fst (snd st) = v @ fst (snd st')" "m \<le> length v"
          "length (snd (snd st')) = length (snd (snd st))" by blast
  assume "\<exists>v. fst st'' = rev v @ fst st' \<and> fst (snd st') = v @ fst (snd st'') \<and> n \<le> length v \<and>
          length (snd (snd st'')) = length (snd (snd st'))"
  then obtain u where u: "fst st'' = rev u @ fst st'" "fst (snd st') = u @ fst (snd st'')" "n \<le> length u"
          "length (snd (snd st'')) = length (snd (snd st'))" by blast
  have "fst st'' = rev (v @ u) @ fst st \<and> fst (snd st) = (v @ u) @ fst (snd st'') \<and> m + n \<le> length (v @ u) \<and>
          length (snd (snd st'')) = length (snd (snd st))"
    using v u by simp
  then show "\<exists>w. fst st'' = rev w @ fst st \<and> fst (snd st) = w @ fst (snd st'') \<and> m + n \<le> length w \<and>
          length (snd (snd st'')) = length (snd (snd st))" by blast
qed

lemma rep_shape:
  assumes f: "\<And>st st'. st' \<in> set (f st) \<Longrightarrow> shape m st st'"
  shows "st' \<in> set (rep f lo n st) \<Longrightarrow> shape (lo * m) st st'"
proof (induction n arbitrary: lo st)
  case 0
  then show ?case by (auto simp: shape_refl split: if_splits)
next
  case (Suc n)
  from Suc.prems consider
    (more) mid where "mid \<in> set (f st)" "st' \<in> set (rep f (lo - 1) n mid)"
    | (stop) "lo = 0" "st' = st"
    by (auto split: if_splits)
  then show ?case
  proof cases
    case more
    have "shape (m + (lo - 1) * m) st st'"
      using shape_trans [OF f [OF more(1)] Suc.IH [OF more(2)]] .
    then have "shape m' st st'" if "m' \<le> m + (lo - 1) * m" for m'
      using that unfolding shape_def by (meson le_trans)
    moreover have "lo * m \<le> m + (lo - 1) * m"
      by (cases lo) simp_all
    ultimately show ?thesis by blast
  next
    case stop
    then show ?thesis by (simp add: shape_refl)
  qed
qed



lemma shape_step: "shape (Suc 0) (pre, c # rest, g) (c # pre, rest, g)"
  unfolding shape_def by (rule exI [of _ "[c]"]) simp

lemma run_Cls_shape: "st' \<in> set (run (Cls cs) st) \<Longrightarrow> shape (Suc 0) st st'"
proof -
  assume a: "st' \<in> set (run (Cls cs) st)"
  obtain pre rest g where st: "st = (pre, rest, g)" by (cases st) auto
  show ?thesis
  proof (cases rest)
    case Nil
    with a st show ?thesis by simp
  next
    case (Cons c cs')
    with a st have "st' = (c # pre, cs', g)" by (simp split: if_splits)
    then show ?thesis using st Cons shape_step by simp
  qed
qed

lemma run_NCls_shape: "st' \<in> set (run (NCls cs) st) \<Longrightarrow> shape (Suc 0) st st'"
proof -
  assume a: "st' \<in> set (run (NCls cs) st)"
  obtain pre rest g where st: "st = (pre, rest, g)" by (cases st) auto
  show ?thesis
  proof (cases rest)
    case Nil
    with a st show ?thesis by simp
  next
    case (Cons c cs')
    with a st have "st' = (c # pre, cs', g)" by (simp split: if_splits)
    then show ?thesis using st Cons shape_step by simp
  qed
qed

lemma run_Behind_same: "st' \<in> set (run (Behind cs) st) \<Longrightarrow> st' = st"
proof -
  assume a: "st' \<in> set (run (Behind cs) st)"
  obtain pre rest g where st: "st = (pre, rest, g)" by (cases st) auto
  show ?thesis
  proof (cases pre)
    case Nil
    with a st show ?thesis by simp
  next
    case (Cons c cs')
    with a st show ?thesis by (simp split: if_splits)
  qed
qed

lemma shape_update:
  "shape m st (p, r, g) \<Longrightarrow> shape m st (p, r, g[i := x])"
  by (simp add: shape_def)



lemma run_Grp_elem:
  "st' \<in> set (run (Grp i r) st) \<Longrightarrow>
   \<exists>p s g. (p, s, g) \<in> set (run r st) \<and>
     st' = (p, s, g[i := Some (rev (take (length p - length (fst st)) p))])"
proof -
  assume "st' \<in> set (run (Grp i r) st)"
  then obtain mid where m: "mid \<in> set (run r st)"
    and e: "st' = (case mid of (pre', rest', g') \<Rightarrow>
            (pre', rest', g'[i := Some (rev (take (length pre' - length (fst st)) pre'))]))"
    by (auto simp only: run.simps set_map)
  obtain p s g where mid: "mid = (p, s, g)" by (cases mid) auto
  show ?thesis using m e unfolding mid by auto
qed

lemma run_shape: "st' \<in> set (run r st) \<Longrightarrow> shape (minlen r) st st'"
proof (induction r arbitrary: st st')
  case (Cls cs)
  then show ?case using run_Cls_shape by simp
next
  case (NCls cs)
  then show ?case using run_NCls_shape by simp
next
  case (Seq a b)
  from Seq.prems have "st' \<in> set (concat (map (run b) (run a st)))" by simp
  then obtain mid where m: "mid \<in> set (run a st)" "st' \<in> set (run b mid)" by auto
  show ?case using shape_trans [OF Seq.IH(1) [OF m(1)] Seq.IH(2) [OF m(2)]] by simp
next
  case (Rep r lo hi)
  from Rep.prems obtain n where n: "st' \<in> set (rep (run r) lo n st)" by simp
  have "shape (lo * minlen r) st st'"
    using Rep.IH n by (rule rep_shape [of "run r" "minlen r"])
  then show ?case by simp
next
  case (Ahead r)
  then have "st' = st" by (simp split: if_splits)
  then show ?case by (simp add: shape_refl)
next
  case (Behind cs)
  from run_Behind_same [OF Behind] show ?case by (simp add: shape_refl)
next
  case (Grp i r)
  from run_Grp_elem [OF Grp.prems] obtain p s g where mid: "(p, s, g) \<in> set (run r st)"
    and st': "st' = (p, s, g[i := Some (rev (take (length p - length (fst st)) p))])"
    by blast
  from Grp.IH [OF mid] show ?case unfolding st' by (simp add: shape_update)
qed


lemma match_at_run:
  "match_at r pre rest = Some st \<Longrightarrow> st \<in> set (run r (pre, rest, replicate (ngroups r) None))"
  by (auto simp: match_at_def split: list.splits)

lemma search_from_match:
  "search_from r pre rest = Some (p0, st) \<Longrightarrow>
   \<exists>u rest0. p0 = rev u @ pre \<and> rest = u @ rest0 \<and> match_at r p0 rest0 = Some st"
proof (induction rest arbitrary: pre)
  case Nil
  then show ?case by auto
next
  case (Cons c cs)
  show ?case
  proof (cases "match_at r pre (c # cs)")
    case None
    with Cons.prems have "search_from r (c # pre) cs = Some (p0, st)" by simp
    from Cons.IH [OF this] obtain u rest0 where
      u: "p0 = rev u @ c # pre" "cs = u @ rest0" "match_at r p0 rest0 = Some st" by blast
    show ?thesis
      using u by (intro exI [of _ "c # u"] exI [of _ rest0]) auto
  next
    case (Some a)
    with Cons.prems have "p0 = pre" "a = st" by simp_all
    with Some show ?thesis by auto
  qed
qed

text \<open>
  Every pattern of the program consumes at least one character, so \<open>findall_from\<close> and
  \<open>sub_from\<close> never take their branch for an empty match.
\<close>

lemma match_at_consumes:
  assumes "match_at r pre rest = Some (pre', rest', g)" and "0 < minlen r"
  shows "length rest' < length rest"
proof -
  from run_shape [OF match_at_run [OF assms(1)]] obtain v where
    "rest = v @ rest'" "minlen r \<le> length v" unfolding shape_def by auto
  with assms(2) show ?thesis by auto
qed

lemma patterns_consume:
  "minlen bracket_re = 1" "minlen slug_re = 8" "minlen random_id_re = 6"
  "minlen semester_re = 7" "minlen combined_re = 9"
  by (simp_all add: bracket_re_def slug_re_def slug_body_def random_id_re_def
      semester_re_def combined_re_def)

lemma minlen_slug_body: "minlen slug_body = 8"
  by (simp add: slug_body_def)

lemma run_slug_re_groups:
  assumes "st \<in> set (run slug_re (p, s, [None]))"
  shows "\<exists>v. snd (snd st) = [Some v] \<and> v \<noteq> [] \<and> fst st = rev v @ p \<and> s = v @ fst (snd st)"
proof -
  from assms obtain p' s' g where
    mid: "(p', s', g) \<in> set (run slug_body (p, s, [None]))"
    and st: "st = (p', s', g[0 := Some (rev (take (length p' - length p) p'))])"
    unfolding slug_re_def using run_Grp_elem by fastforce
  from run_shape [OF mid] obtain v where
    v: "p' = rev v @ p" "s = v @ s'" "8 \<le> length v" "length g = 1"
    unfolding shape_def minlen_slug_body by auto
  from v(4) obtain x where g: "g = [x]" by (cases g) auto
  have "snd (snd st) = [Some v]" unfolding st g v by simp
  moreover have "v \<noteq> []" using v(3) by auto
  ultimately show ?thesis using v st by auto
qed

lemma ngroups_slug_re: "ngroups slug_re = 1"
  by (simp add: slug_re_def slug_body_def suffix_re_def)

lemma re_search_slug_groups:
  assumes "re_search slug_re s = Some m"
  shows "\<exists>v. groups m = [Some v] \<and> v \<noteq> []"
proof -
  obtain p0 st where m: "m = (p0, st)" by (cases m) auto
  from assms search_from_match [of slug_re "[]" s p0 st] obtain rest0 where
    "match_at slug_re p0 rest0 = Some st" unfolding m re_search_def by blast
  from match_at_run [OF this] have "st \<in> set (run slug_re (p0, rest0, [None]))"
    by (simp add: ngroups_slug_re)
  from run_slug_re_groups [OF this] show ?thesis unfolding m groups_def by auto
qed

lemma format_with_slug_single:
  "v \<noteq> [] \<Longrightarrow> format_with_slug [Some v] a = Inr (replace v '' '' ''-'' @ '': '' @ a)"
  by (simp add: format_with_slug_def)

lemma format_event_Inr: "\<exists>s. format_event t = Inr s"
proof (cases "findall bracket_re t = []")
  case True
  then show ?thesis by (simp add: format_event_def)
next
  case False
  show ?thesis
  proof (cases "re_search slug_re (last (findall bracket_re t))")
    case None
    with False show ?thesis by (simp add: format_event_def Let_def)
  next
    case (Some m)
    from re_search_slug_groups [OF Some] obtain v where "groups m = [Some v]" "v \<noteq> []" by blast
    with False Some show ?thesis by (simp add: format_event_def Let_def format_with_slug_single)
  qed
qed


text \<open>
  A bracketed substring of a title: a non-empty text without brackets, between a \<open>[\<close>
  and a \<open>]\<close>.
\<close>

definition has_bracketed :: "string \<Rightarrow> bool" where
  "has_bracketed t =
     (\<exists>u v w. t = u @ ''['' @ v @ '']'' @ w \<and> v \<noteq> [] \<and>
        CHR ''['' \<notin> set v \<and> CHR '']'' \<notin> set v)"

abbreviation brackets :: "citem list" where
  "brackets \<equiv> [Ch CHR ''['', Ch CHR '']'']"

lemma in_class_brackets: "in_class brackets c = (c = CHR ''['' \<or> c = CHR '']'')"
  by (simp add: in_class_def)


lemma run_Seq_elem:
  "st' \<in> set (run (Seq a b) st) \<Longrightarrow> \<exists>mid. mid \<in> set (run a st) \<and> st' \<in> set (run b mid)"
  by auto

lemma run_Rep_elem:
  "st' \<in> set (run (Rep r lo hi) st) \<Longrightarrow> \<exists>n. st' \<in> set (rep (run r) lo n st)"
  by auto

lemma run_Ahead_elem:
  "st' \<in> set (run (Ahead r) st) \<Longrightarrow> st' = st \<and> run r st \<noteq> []"
  by (auto split: if_splits)

lemma run_Cls_elem:
  assumes "st' \<in> set (run (Cls cs) st)"
  shows "\<exists>c. in_class cs c \<and> fst (snd st) = c # fst (snd st') \<and> fst st' = c # fst st \<and>
           snd (snd st') = snd (snd st)"
proof -
  obtain pre rest g where st: "st = (pre, rest, g)" by (cases st) auto
  show ?thesis using assms unfolding st by (cases rest) (auto split: if_splits)
qed

lemma run_NCls_elem:
  assumes "st' \<in> set (run (NCls cs) st)"
  shows "\<exists>c. \<not> in_class cs c \<and> fst (snd st) = c # fst (snd st') \<and> fst st' = c # fst st \<and>
           snd (snd st') = snd (snd st)"
proof -
  obtain pre rest g where st: "st = (pre, rest, g)" by (cases st) auto
  show ?thesis using assms unfolding st by (cases rest) (auto split: if_splits)
qed

lemma run_Behind_elem:
  assumes "st' \<in> set (run (Behind cs) st)"
  shows "st' = st \<and> (\<exists>c p0. fst st = c # p0 \<and> in_class cs c)"
proof -
  obtain pre rest g where st: "st = (pre, rest, g)" by (cases st) auto
  show ?thesis using assms unfolding st by (cases pre) (auto split: if_splits)
qed

lemma rep_chars:
  assumes f: "\<And>st st'. st' \<in> set (f st) \<Longrightarrow>
      \<exists>c. P c \<and> fst (snd st) = c # fst (snd st') \<and> fst st' = c # fst st \<and>
          snd (snd st') = snd (snd st)"
  shows "st' \<in> set (rep f lo n st) \<Longrightarrow>
   \<exists>v. fst (snd st) = v @ fst (snd st') \<and> fst st' = rev v @ fst st \<and>
        (\<forall>c \<in> set v. P c) \<and> lo \<le> length v \<and> length v \<le> n \<and>
        snd (snd st') = snd (snd st)"
proof (induction n arbitrary: lo st)
  case 0
  then show ?case by (auto split: if_splits)
next
  case (Suc n)
  from Suc.prems consider
    (more) mid where "mid \<in> set (f st)" "st' \<in> set (rep f (lo - 1) n mid)"
    | (stop) "lo = 0" "st' = st"
    by (auto split: if_splits)
  then show ?case
  proof cases
    case more
    from f [OF more(1)] obtain c where
      c: "P c" "fst (snd st) = c # fst (snd mid)" "fst mid = c # fst st"
         "snd (snd mid) = snd (snd st)" by blast
    from Suc.IH [OF more(2)] obtain v where
      v: "fst (snd mid) = v @ fst (snd st')" "fst st' = rev v @ fst mid"
         "\<forall>c \<in> set v. P c" "lo - 1 \<le> length v" "length v \<le> n"
         "snd (snd st') = snd (snd mid)" by blast
    have "fst (snd st) = (c # v) @ fst (snd st') \<and> fst st' = rev (c # v) @ fst st \<and>
        (\<forall>c \<in> set (c # v). P c) \<and> lo \<le> length (c # v) \<and> length (c # v) \<le> Suc n \<and>
        snd (snd st') = snd (snd st)"
      using c v by auto
    then show ?thesis by blast
  next
    case stop
    then show ?thesis by auto
  qed
qed

lemma run_bracket_re:
  assumes "st' \<in> set (run bracket_re (pre, rest, g))"
  shows "\<exists>p0 v w. pre = CHR ''['' # p0 \<and> rest = v @ CHR '']'' # w \<and> v \<noteq> [] \<and>
           CHR ''['' \<notin> set v \<and> CHR '']'' \<notin> set v \<and> st' = (rev v @ pre, CHR '']'' # w, g)"
proof -
  let ?plus = "Rep (NCls brackets) 1 None"
  let ?ahead = "Ahead (Cls [Ch CHR '']''])"
  have br: "bracket_re = Seq (Behind [Ch CHR ''['']) (Seq ?plus ?ahead)"
    by (simp add: bracket_re_def)
  from assms run_Seq_elem obtain m1 where m1: "m1 \<in> set (run (Behind [Ch CHR ''['']) (pre, rest, g))"
    and r1: "st' \<in> set (run (Seq ?plus ?ahead) m1)" unfolding br by blast
  from run_Behind_elem [OF m1] obtain c p0 where
    m1_eq: "m1 = (pre, rest, g)" and p0: "pre = c # p0" "in_class [Ch CHR ''[''] c" by auto
  from p0 have pre: "pre = CHR ''['' # p0" by (simp add: in_class_def)
  from r1 run_Seq_elem obtain m2 where m2: "m2 \<in> set (run ?plus m1)"
    and r2: "st' \<in> set (run ?ahead m2)" by blast
  from run_Rep_elem [OF m2] obtain n where
    n: "m2 \<in> set (rep (run (NCls brackets)) 1 n (pre, rest, g))" unfolding m1_eq by blast
  have "\<exists>v. fst (snd (pre, rest, g)) = v @ fst (snd m2) \<and> fst m2 = rev v @ fst (pre, rest, g) \<and>
        (\<forall>c \<in> set v. \<not> in_class brackets c) \<and> 1 \<le> length v \<and> length v \<le> n \<and>
        snd (snd m2) = snd (snd (pre, rest, g))"
    using run_NCls_elem n by (rule rep_chars [where f = "run (NCls brackets)"])
  then obtain v where
    v: "rest = v @ fst (snd m2)" "fst m2 = rev v @ pre" "\<forall>c \<in> set v. \<not> in_class brackets c"
       "1 \<le> length v" "snd (snd m2) = g" by auto
  from run_Ahead_elem [OF r2] have st': "st' = m2" and ne: "run (Cls [Ch CHR '']'']) m2 \<noteq> []"
    by simp_all
  define x where "x = hd (run (Cls [Ch CHR '']'']) m2)"
  from run_Cls_elem [OF hd_in_set [OF ne]] obtain d where d: "in_class [Ch CHR '']''] d" "fst (snd m2) = d # fst (snd x)"
    unfolding x_def by blast
  from d(1) have d_eq: "d = CHR '']''" by (simp add: in_class_def)
  have "st' = (rev v @ pre, CHR '']'' # fst (snd x), g)"
    unfolding st' using v(2,5) d(2) d_eq by (cases m2) auto
  moreover have "rest = v @ CHR '']'' # fst (snd x)" using v(1) d(2) d_eq by simp
  moreover have "v \<noteq> []" using v(4) by auto
  moreover have "CHR ''['' \<notin> set v \<and> CHR '']'' \<notin> set v"
    using v(3) by (auto simp: in_class_brackets)
  ultimately show ?thesis using pre by blast
qed

lemma findall_from_nonempty:
  "findall_from r pre rest \<noteq> [] \<Longrightarrow>
   \<exists>u rest0 st. rest = u @ rest0 \<and> match_at r (rev u @ pre) rest0 = Some st"
proof (induction r pre rest rule: findall_from.induct)
  case (1 r pre rest)
  show ?case
  proof (cases "match_at r pre rest")
    case None
    with "1.prems" obtain c cs where cs: "rest = c # cs" and ne: "findall_from r (c # pre) cs \<noteq> []"
      by (cases rest) (auto simp: findall_from.simps [of r pre rest])
    from "1.IH"(1) [OF None cs ne] obtain u rest0 st where
      "cs = u @ rest0" "match_at r (rev u @ c # pre) rest0 = Some st" by blast
    then have "rest = (c # u) @ rest0 \<and> match_at r (rev (c # u) @ pre) rest0 = Some st"
      using cs by simp
    then show ?thesis by blast
  next
    case (Some st)
    then have "rest = [] @ rest \<and> match_at r (rev [] @ pre) rest = Some st" by simp
    then show ?thesis by blast
  qed
qed

lemma findall_bracket_re_has_bracketed:
  assumes "findall bracket_re t \<noteq> []"
  shows "has_bracketed t"
proof -
  from assms findall_from_nonempty [of bracket_re "[]" t] obtain u rest0 st where
    u: "t = u @ rest0" "match_at bracket_re (rev u) rest0 = Some st"
    unfolding findall_def by auto
  from match_at_run [OF u(2)] run_bracket_re obtain p0 v w where
    "rev u = CHR ''['' # p0" "rest0 = v @ CHR '']'' # w" "v \<noteq> []"
    "CHR ''['' \<notin> set v" "CHR '']'' \<notin> set v" by blast
  moreover from this(1) have "u = rev p0 @ ''[''" by (metis rev_rev_ident rev.simps(2))
  ultimately have "t = rev p0 @ ''['' @ v @ '']'' @ w" using u(1) by simp
  with \<open>v \<noteq> []\<close> \<open>CHR ''['' \<notin> set v\<close> \<open>CHR '']'' \<notin> set v\<close> show ?thesis
    unfolding has_bracketed_def by blast
qed

text \<open>\<open>has_bracketed\<close>, computed by a scan of the title.\<close>

definition no_bracket :: "char \<Rightarrow> bool" where
  "no_bracket c = (c \<noteq> CHR ''['' \<and> c \<noteq> CHR '']'')"

fun bracketed_scan :: "string \<Rightarrow> bool" where
  "bracketed_scan [] = False"
| "bracketed_scan (c # cs) =
     ((c = CHR ''['' \<and> takeWhile no_bracket cs \<noteq> [] \<and>
       (case dropWhile no_bracket cs of [] \<Rightarrow> False | d # ds \<Rightarrow> d = CHR '']''))
      \<or> bracketed_scan cs)"

lemma bracketed_scan_sound: "bracketed_scan t \<Longrightarrow> has_bracketed t"
proof (induction t)
  case Nil
  then show ?case by simp
next
  case (Cons c cs)
  show ?case
  proof (cases "bracketed_scan cs")
    case True
    from Cons.IH [OF True] obtain u v w where
      "cs = u @ ''['' @ v @ '']'' @ w" "v \<noteq> []" "CHR ''['' \<notin> set v" "CHR '']'' \<notin> set v"
      unfolding has_bracketed_def by blast
    then have "c # cs = (c # u) @ ''['' @ v @ '']'' @ w \<and> v \<noteq> [] \<and>
        CHR ''['' \<notin> set v \<and> CHR '']'' \<notin> set v" by simp
    then show ?thesis unfolding has_bracketed_def by blast
  next
    case False
    let ?v = "takeWhile no_bracket cs"
    from False Cons.prems have c: "c = CHR ''[''" and ne: "?v \<noteq> []"
      and d: "(case dropWhile no_bracket cs of [] \<Rightarrow> False | d # ds \<Rightarrow> d = CHR '']'')"
      by auto
    from d obtain ds where ds: "dropWhile no_bracket cs = CHR '']'' # ds"
      by (cases "dropWhile no_bracket cs") auto
    have "cs = ?v @ CHR '']'' # ds" using ds takeWhile_dropWhile_id [of no_bracket cs] by simp
    then have "c # cs = [] @ ''['' @ ?v @ '']'' @ ds" using c by simp
    moreover have "CHR ''['' \<notin> set ?v \<and> CHR '']'' \<notin> set ?v"
      using set_takeWhileD [of _ no_bracket cs] by (auto simp: no_bracket_def)
    ultimately show ?thesis using ne unfolding has_bracketed_def by blast
  qed
qed

lemma bracketed_scan_append:
  assumes "v \<noteq> []" "CHR ''['' \<notin> set v" "CHR '']'' \<notin> set v"
  shows "bracketed_scan (u @ ''['' @ v @ '']'' @ w)"
proof (induction u)
  case Nil
  have all: "\<forall>x \<in> set v. no_bracket x" using assms by (auto simp: no_bracket_def)
  have nb: "\<not> no_bracket CHR '']''" by (simp add: no_bracket_def)
  have "takeWhile no_bracket (v @ CHR '']'' # w) = v"
    using all nb by (simp add: takeWhile_tail)
  moreover have "dropWhile no_bracket (v @ CHR '']'' # w) = CHR '']'' # w"
    using all nb by (simp add: dropWhile_append3)
  ultimately show ?case using assms(1) by simp
next
  case (Cons a u)
  then show ?case by simp
qed

lemma has_bracketed_scan: "has_bracketed t = bracketed_scan t"
  using bracketed_scan_sound bracketed_scan_append unfolding has_bracketed_def by blast

section \<open>The formatter on the titles of the specification\<close>

text \<open>
  C1: \<open>format_event\<close> of \<open>[MATH-2164-001] Homework 3\<close> should be
  \<open>MATH-2164-001: Homework 3\<close>, and is \<open>MATH-2164: Homework 3\<close>: the section suffix
  \<open>-001\<close> ends the block, and the lookahead of the pattern asks for a hyphen, a space or a
  colon after it, with no case for the end of the block. When the block goes on after the
  suffix with a space or a colon, the suffix is kept.
\<close>

theorem format_event_section_suffix:
  "format_event ''[MATH-2164-001] Homework 3'' = Inr ''MATH-2164: Homework 3'' \<and>
   format_event ''[MATH-2164-001 ] Homework 3'' = Inr ''MATH-2164-001: Homework 3'' \<and>
   format_event ''[MATH-2164-001: Calculus] Homework 3'' = Inr ''MATH-2164-001: Homework 3''"
  by code_simp

text \<open>
  C2: for a block of two sections of one course, the result should be the shared base code
  that \<open>_format_with_slug\<close> computes from two slug pieces: for
  \<open>MATH-2164-001\<close> and \<open>MATH-2164-002\<close> it gives \<open>MATH-216: Quiz\<close>. \<open>format_event\<close>
  never hands it two pieces, since \<open>groups()\<close> of the one match of \<open>re.search\<close> has one
  element: on \<open>[MATH-2164-001, MATH-2164-002] Quiz\<close> the result is \<open>MATH-2164: Quiz\<close>, and
  on \<open>[MATH-2164-001 , MATH-2164-002] Quiz\<close> it is the first section,
  \<open>MATH-2164-001: Quiz\<close>.
\<close>

theorem format_event_multi_section:
  "format_event ''[MATH-2164-001, MATH-2164-002] Quiz'' = Inr ''MATH-2164: Quiz'' \<and>
   format_event ''[MATH-2164-001 , MATH-2164-002] Quiz'' = Inr ''MATH-2164-001: Quiz'' \<and>
   format_with_slug [Some ''MATH-2164-001'', Some ''MATH-2164-002''] ''Quiz'' =
     Inr (rstrip_chars ''-'' (take 8 ''MATH-2164-001'') @ '': '' @ ''Quiz'') \<and>
   format_with_slug [Some ''MATH-2164-001'', Some ''MATH-2164-002''] ''Quiz'' =
     Inr ''MATH-216: Quiz''"
  by code_simp

section \<open>The formatter on every title\<close>

text \<open>
  C3: for every title with no bracketed substring (no non-empty text without brackets
  between a \<open>[\<close> and a \<open>]\<close>), \<open>format_event\<close> returns the title unchanged. A title
  with no non-empty text at all between a \<open>[\<close> and a \<open>]\<close> is such a title.
\<close>

theorem format_event_without_brackets: "\<not> has_bracketed t \<Longrightarrow> format_event t = Inr t"
proof -
  assume "\<not> has_bracketed t"
  with findall_bracket_re_has_bracketed [of t] have "findall bracket_re t = []" by blast
  then show ?thesis by (simp add: format_event_def)
qed

theorem format_event_without_brackets_witness:
  "\<not> has_bracketed ''Essay ] draft [] due [ Friday'' \<and>
   format_event ''Essay ] draft [] due [ Friday'' = Inr ''Essay ] draft [] due [ Friday''"
proof -
  have h: "\<not> has_bracketed ''Essay ] draft [] due [ Friday''"
    unfolding has_bracketed_scan by (simp add: no_bracket_def)
  from format_event_without_brackets [OF h] h show ?thesis by simp
qed

text \<open>
  C8: for every title, \<open>format_event\<close> returns a string and raises nothing: the only
  operation of the formatter that can raise, \<open>slugs[0]\<close> in \<open>_format_with_slug\<close>, is
  never reached with an empty list.
\<close>

theorem format_event_never_raises: "\<exists>s. format_event t = Inr s"
proof (cases "findall bracket_re t = []")
  case True
  then show ?thesis by (simp add: format_event_def)
next
  case False
  show ?thesis
  proof (cases "re_search slug_re (last (findall bracket_re t))")
    case None
    with False show ?thesis by (simp add: format_event_def Let_def)
  next
    case (Some m)
    from re_search_slug_groups [OF Some] obtain v where "groups m = [Some v]" "v \<noteq> []" by blast
    with False Some show ?thesis by (simp add: format_event_def Let_def format_with_slug_single)
  qed
qed

text \<open>
  C9: whenever the title has a bracketed block and the course-code pattern matches the last
  one, the match has exactly one group, it has captured a non-empty text, and the result of
  \<open>format_event\<close> is that text with its spaces replaced by hyphens, then \<open>: \<close> and the
  assignment. So \<open>_format_with_slug\<close> always takes its \<open>len(slugs) == 1\<close> branch.
\<close>

theorem format_event_single_slug:
  assumes "findall bracket_re t \<noteq> []"
    and "re_search slug_re (last (findall bracket_re t)) = Some m"
  shows "\<exists>v. groups m = [Some v] \<and> v \<noteq> [] \<and>
           format_event t =
             Inr (replace v '' '' ''-'' @ '': '' @
                  strip (replace t (''['' @ last (findall bracket_re t) @ '']'') []))"
proof -
  from re_search_slug_groups [OF assms(2)] obtain v where v: "groups m = [Some v]" "v \<noteq> []"
    by blast
  have "format_event t =
          format_with_slug (groups m)
            (strip (replace t (''['' @ last (findall bracket_re t) @ '']'') []))"
    using assms by (simp add: format_event_def Let_def)
  with v show ?thesis by (simp add: format_with_slug_single)
qed

theorem format_event_single_slug_witness:
  "\<exists>m. re_search slug_re (last (findall bracket_re ''[Fall 2024 MATH 2164 A: Calculus] Quiz 2'')) = Some m \<and>
     groups m = [Some ''MATH 2164 A''] \<and>
     format_event ''[Fall 2024 MATH 2164 A: Calculus] Quiz 2'' = Inr ''MATH-2164-A: Quiz 2''"
proof -
  let ?t = "''[Fall 2024 MATH 2164 A: Calculus] Quiz 2''"
  have f: "findall bracket_re ?t \<noteq> []" by code_simp
  have g: "map_option groups (re_search slug_re (last (findall bracket_re ?t))) = Some [Some ''MATH 2164 A'']"
    by code_simp
  then obtain m where m: "re_search slug_re (last (findall bracket_re ?t)) = Some m"
    and gm: "groups m = [Some ''MATH 2164 A'']" by auto
  have a: "strip (replace ?t (''['' @ last (findall bracket_re ?t) @ '']'') []) = ''Quiz 2''"
    by code_simp
  have r: "replace ''MATH 2164 A'' '' '' ''-'' = ''MATH-2164-A''" by code_simp
  from format_event_single_slug [OF f m] gm a r
  have "format_event ?t = Inr ''MATH-2164-A: Quiz 2''" by simp
  with m gm show ?thesis by blast
qed

section \<open>Loading, grouping and reporting: properties\<close>

lemma startswith_prefix: "startswith s p = prefix p s"
  unfolding startswith_def
  by (metis append_eq_conv_conj prefix_def take_is_prefix)

lemma str_in_sublist: "str_in item s = sublist item s"
proof (induction s)
  case Nil
  then show ?case by auto
next
  case (Cons c cs)
  then show ?case by (simp add: startswith_prefix sublist_Cons_right)
qed

text \<open>
  Names for the steps of the loop of \<open>parse_calendar\<close>: the label of a title (the string
  \<open>format_event\<close> returns), the test that skips an event, and the update of the dictionary
  for a kept event.
\<close>

definition label :: "string \<Rightarrow> string" where
  "label t = (case format_event t of Inr s \<Rightarrow> s | Inl e \<Rightarrow> [])"

lemma format_event_label: "format_event t = Inr (label t)"
  using format_event_Inr [of t] by (auto simp: label_def)

definition skipped :: "event \<Rightarrow> bool" where
  "skipped e = list_ex (\<lambda>item. str_in item (ev_name e)) to_skip"

lemma skipped_sublist:
  "skipped e = (sublist ''PAL'' (ev_name e) \<or> sublist ''Training'' (ev_name e))"
  by (simp add: skipped_def to_skip_def str_in_sublist)

definition add_event :: "(date \<times> string list) list \<Rightarrow> event \<Rightarrow> (date \<times> string list) list" where
  "add_event acc e = dd_append (date_of (ev_begin e)) (label (ev_name e)) acc"

lemma events_loop_foldl:
  "events_loop (map ics_of evs) acc =
     Inr (foldl add_event acc (filter (\<lambda>e. \<not> skipped e) evs))"
proof (induction evs arbitrary: acc)
  case Nil
  then show ?case by simp
next
  case (Cons e evs)
  show ?case
  proof (cases "skipped e")
    case True
    then show ?thesis using Cons.IH [of acc] by (simp add: skipped_def Let_def ics_of_def)
  next
    case False
    then show ?thesis
      using Cons.IH [of "add_event acc e"]
      by (simp add: skipped_def Let_def format_event_label add_event_def ics_of_def)
  qed
qed

lemma events_loop_raises:
  "events_loop evs acc = Inl e \<Longrightarrow>
   e = AttributeError no_date_attribute \<or> e = TypeError not_iterable"
proof (induction evs arbitrary: acc)
  case Nil
  then show ?case by simp
next
  case (Cons ev evs)
  show ?case
  proof (cases "ics_begin ev")
    case None
    with Cons.prems show ?thesis by simp
  next
    case b: (Some event_begin)
    show ?thesis
    proof (cases "ics_name ev")
      case None
      with b Cons.prems show ?thesis by simp
    next
      case n: (Some event_details)
      show ?thesis
      proof (cases "list_ex (\<lambda>item. str_in item event_details) to_skip")
        case True
        with b n Cons.prems have "events_loop evs acc = Inl e" by simp
        then show ?thesis by (rule Cons.IH)
      next
        case False
        with b n Cons.prems have
          "events_loop evs (dd_append (date_of event_begin) (label event_details) acc) = Inl e"
          by (simp add: format_event_label)
        then show ?thesis by (rule Cons.IH)
      qed
    qed
  qed
qed

lemma map_of_dd_append:
  "map_of (dd_append k x m) d =
     (if d = k then Some (case map_of m k of None \<Rightarrow> [x] | Some v \<Rightarrow> v @ [x]) else map_of m d)"
  by (induction m) auto

lemma keys_dd_append: "fst ` set (dd_append k x m) = insert k (fst ` set m)"
proof (induction m)
  case Nil
  then show ?case by simp
next
  case (Cons a m)
  obtain k' v where a: "a = (k', v)" by (cases a) auto
  show ?case unfolding a using Cons.IH by (cases "k' = k") (simp_all add: insert_commute)
qed

lemma distinct_dd_append: "distinct (map fst m) \<Longrightarrow> distinct (map fst (dd_append k x m))"
proof (induction m)
  case Nil
  then show ?case by simp
next
  case (Cons a m)
  obtain k' v where a: "a = (k', v)" by (cases a) auto
  show ?case
  proof (cases "k' = k")
    case True
    with Cons.prems a show ?thesis by simp
  next
    case False
    with Cons a keys_dd_append [of k x m] show ?thesis by simp
  qed
qed

lemma map_of_foldl_add_event:
  "map_of (foldl add_event acc es) d =
     (let ls = map (\<lambda>e. label (ev_name e)) (filter (\<lambda>e. date_of (ev_begin e) = d) es)
      in if ls = [] then map_of acc d
         else Some (case map_of acc d of None \<Rightarrow> ls | Some v \<Rightarrow> v @ ls))"
proof (induction es arbitrary: acc)
  case Nil
  then show ?case by simp
next
  case (Cons e es)
  show ?case
    unfolding foldl_Cons Cons.IH [of "add_event acc e"]
    by (auto simp: add_event_def map_of_dd_append Let_def split: option.splits)
qed

lemma keys_foldl_add_event:
  "fst ` set (foldl add_event acc es) =
     fst ` set acc \<union> (\<lambda>e. date_of (ev_begin e)) ` set es"
proof (induction es arbitrary: acc)
  case Nil
  then show ?case by simp
next
  case (Cons e es)
  show ?case
    unfolding foldl_Cons Cons.IH [of "add_event acc e"]
    by (simp add: add_event_def keys_dd_append)
qed

lemma distinct_foldl_add_event:
  "distinct (map fst acc) \<Longrightarrow> distinct (map fst (foldl add_event acc es))"
  by (induction es arbitrary: acc) (simp_all add: add_event_def distinct_dd_append)

lemma parse_calendar_loaded:
  assumes "path_exists w p = Inr True" "read_text w p = Inr content"
    and "Calendar w content = Inr (map ics_of evs)"
  shows "parse_calendar w p = Inr (foldl add_event [] (filter (\<lambda>e. \<not> skipped e) evs))"
  using assms by (simp add: parse_calendar_def events_loop_foldl)

text \<open>
  C4: when the calendar loads and every event has a start and a title, the list that \<open>parse_calendar\<close> returns under a date is the
  list of the formatted titles of exactly those events of that date, in calendar order,
  whose raw title contains neither \<open>PAL\<close> nor \<open>Training\<close> as a substring; a date all of
  whose events are excluded has no entry. The test is on the raw title, before
  \<open>format_event\<close>.
\<close>

theorem parse_calendar_filter:
  assumes "path_exists w p = Inr True" "read_text w p = Inr content"
    and "Calendar w content = Inr (map ics_of evs)"
  shows "\<exists>events_by_day. parse_calendar w p = Inr events_by_day \<and>
     (\<forall>d. map_option (map Inr) (map_of events_by_day d) =
        (let kept = filter (\<lambda>e. date_of (ev_begin e) = d \<and>
                              \<not> sublist ''PAL'' (ev_name e) \<and>
                              \<not> sublist ''Training'' (ev_name e)) evs
         in if kept = [] then None else Some (map (\<lambda>e. format_event (ev_name e)) kept)))"
proof -
  let ?K = "filter (\<lambda>e. \<not> skipped e) evs"
  have "map_option (map Inr) (map_of (foldl add_event [] ?K) d) =
        (let kept = filter (\<lambda>e. date_of (ev_begin e) = d \<and>
                              \<not> sublist ''PAL'' (ev_name e) \<and>
                              \<not> sublist ''Training'' (ev_name e)) evs
         in if kept = [] then None else Some (map (\<lambda>e. format_event (ev_name e)) kept))" for d
    by (simp add: map_of_foldl_add_event Let_def skipped_sublist format_event_label conj_commute)
  with parse_calendar_loaded [OF assms] show ?thesis by blast
qed


lemma sorted_map_fst:
  fixes xs :: "('a::linorder \<times> 'b::linorder) list"
  shows "sorted xs \<Longrightarrow> sorted (map fst xs)"
proof (induction xs)
  case Nil
  then show ?case by simp
next
  case (Cons x xs)
  have "fst x \<le> fst y" if "y \<in> set xs" for y
  proof -
    from Cons.prems that have "x \<le> y" by simp
    then show ?thesis by (auto simp: less_eq_prod_def)
  qed
  with Cons show ?case by simp
qed

lemma dates_ascending:
  fixes m :: "('a::linorder \<times> 'b::linorder) list"
  assumes "distinct (map fst m)"
  shows "sorted_wrt (<) (map fst (sort m))"
proof -
  have "distinct (map fst (sort m))"
    using assms by (simp add: distinct_map)
  moreover have "sorted (map fst (sort m))"
    by (rule sorted_map_fst) simp
  ultimately show ?thesis by (simp add: strict_sorted_iff)
qed

text \<open>The labels of the kept events of a date, in calendar order.\<close>

definition labels_on :: "event list \<Rightarrow> date \<Rightarrow> string list" where
  "labels_on evs d =
     map (\<lambda>e. label (ev_name e))
       (filter (\<lambda>e. date_of (ev_begin e) = d \<and> \<not> skipped e) evs)"

lemma map_of_grouped:
  "map_of (foldl add_event [] (filter (\<lambda>e. \<not> skipped e) evs)) d =
     (if labels_on evs d = [] then None else Some (labels_on evs d))"
  by (simp add: map_of_foldl_add_event labels_on_def Let_def conj_commute)

text \<open>
  C5: when the calendar loads and every event has a start and a title, the dictionary has one key for each date with a kept event,
  whatever the times of day, and under it the labels of all kept events of that date; the
  report prints one block for each such date, the dates strictly ascending, and in each
  block the labels sorted (\<open>sort\<close>, in the lexicographic order of the characters' codes).
\<close>

theorem grouping_and_rendering:
  assumes "path_exists w p = Inr True" "read_text w p = Inr content"
    and "Calendar w content = Inr (map ics_of evs)"
  shows "\<exists>events_by_day days.
     parse_calendar w p = Inr events_by_day \<and>
     distinct (map fst events_by_day) \<and>
     (\<forall>d. map_of events_by_day d =
        (if labels_on evs d = [] then None else Some (labels_on evs d))) \<and>
     sorted_wrt (<) days \<and>
     set days = {d. labels_on evs d \<noteq> []} \<and>
     render w events_by_day =
       concat (map (\<lambda>d. [[], ''-- '' @ strftime w d @ '' --''] @ sort (labels_on evs d)) days)"
proof -
  let ?m = "foldl add_event [] (filter (\<lambda>e. \<not> skipped e) evs)"
  let ?days = "map fst (sort ?m)"
  have pc: "parse_calendar w p = Inr ?m" by (rule parse_calendar_loaded [OF assms])
  have dist: "distinct (map fst ?m)" by (rule distinct_foldl_add_event) simp
  have mo: "map_of ?m d = (if labels_on evs d = [] then None else Some (labels_on evs d))" for d
    by (rule map_of_grouped)
  have asc: "sorted_wrt (<) ?days" by (rule dates_ascending [OF dist])
  have "set ?days = fst ` set ?m" by simp
  also have "\<dots> = {d. map_of ?m d \<noteq> None}"
    by (auto simp: map_of_eq_None_iff image_iff)
  also have "\<dots> = {d. labels_on evs d \<noteq> []}" by (simp add: mo)
  finally have days: "set ?days = {d. labels_on evs d \<noteq> []}" .
  have item: "ls = labels_on evs d" if "(d, ls) \<in> set (sort ?m)" for d ls
  proof -
    from that have "(d, ls) \<in> set ?m" by simp
    with dist have "map_of ?m d = Some ls" by simp
    then show ?thesis unfolding mo by (simp split: if_splits)
  qed
  have block: "(case x of (day, day_events) \<Rightarrow> [[], ''-- '' @ strftime w day @ '' --''] @ sort day_events)
      = [[], ''-- '' @ strftime w (fst x) @ '' --''] @ sort (labels_on evs (fst x))"
    if "x \<in> set (sort ?m)" for x
  proof -
    obtain d ls where x: "x = (d, ls)" by (cases x) auto
    from item [of d ls] that x have "ls = labels_on evs d" by simp
    then show ?thesis by (simp add: x)
  qed
  have meq: "map (\<lambda>(day, day_events). [[], ''-- '' @ strftime w day @ '' --''] @ sort day_events) (sort ?m)
      = map (\<lambda>d. [[], ''-- '' @ strftime w d @ '' --''] @ sort (labels_on evs d)) ?days"
    unfolding map_map comp_def by (rule map_cong [OF refl]) (rule block)
  have "render w ?m =
       concat (map (\<lambda>d. [[], ''-- '' @ strftime w d @ '' --''] @ sort (labels_on evs d)) ?days)"
    unfolding render_def meq ..
  with pc dist mo asc days show ?thesis by blast
qed

lemma parse_calendar_missing:
  "path_exists w p = Inr False \<Longrightarrow>
   parse_calendar w p = Inl (FileNotFoundError (''Could not find ICS file: '' @ p))"
  by (simp add: parse_calendar_def)

lemma parse_calendar_stat_error:
  "path_exists w p = Inl m \<Longrightarrow> parse_calendar w p = Inl (OSError m)"
  by (simp add: parse_calendar_def)

lemma parse_calendar_unreadable:
  "path_exists w p = Inr True \<Longrightarrow> read_text w p = Inl e \<Longrightarrow>
   parse_calendar w p = Inl (ValueError (''Failed to parse ICS file: '' @ exn_str e))"
  by (simp add: parse_calendar_def)

lemma parse_calendar_invalid:
  "path_exists w p = Inr True \<Longrightarrow> read_text w p = Inr content \<Longrightarrow>
   Calendar w content = Inl e \<Longrightarrow>
   parse_calendar w p = Inl (ValueError (''Failed to parse ICS file: '' @ exn_str e))"
  by (simp add: parse_calendar_def)

lemma parse_calendar_looped:
  "path_exists w p = Inr True \<Longrightarrow> read_text w p = Inr content \<Longrightarrow>
   Calendar w content = Inr evs \<Longrightarrow> parse_calendar w p = events_loop evs []"
  by (simp add: parse_calendar_def)

text \<open>
  A \<open>FileNotFoundError\<close> of \<open>parse_calendar\<close> is the one for a path that \<open>exists\<close> finds
  missing, and a \<open>ValueError\<close> is a failure to open, read or parse the file that exists.
\<close>

lemma parse_calendar_caught:
  assumes "parse_calendar w p = Inl e"
    and "(\<exists>m. e = FileNotFoundError m) \<or> (\<exists>m. e = ValueError m)"
  shows "(path_exists w p = Inr False \<and>
            e = FileNotFoundError (''Could not find ICS file: '' @ p)) \<or>
         (path_exists w p = Inr True \<and>
            (\<exists>x. e = ValueError (''Failed to parse ICS file: '' @ exn_str x)))"
proof (cases "path_exists w p")
  case (Inl m)
  with assms parse_calendar_stat_error [of w p m] show ?thesis by auto
next
  case found: (Inr b)
  show ?thesis
  proof (cases b)
    case False
    with found assms parse_calendar_missing [of w p] show ?thesis by auto
  next
    case True
    show ?thesis
    proof (cases "read_text w p")
      case (Inl x)
      with found True assms parse_calendar_unreadable [of w p x] show ?thesis by auto
    next
      case (Inr content)
      show ?thesis
      proof (cases "Calendar w content")
        case (Inl x)
        with found True Inr assms parse_calendar_invalid [of w p content x] show ?thesis by auto
      next
        case loaded: (Inr evs)
        with found True Inr assms(1) parse_calendar_looped [of w p content evs]
        have "events_loop evs [] = Inl e" by simp
        from events_loop_raises [OF this] assms(2) show ?thesis by auto
      qed
    qed
  qed
qed

text \<open>
  C7: when \<open>parse_calendar\<close> raises a \<open>FileNotFoundError\<close> or a \<open>ValueError\<close> \<open>e\<close>, \<open>main\<close>
  prints \<open>Error: \<close> and \<open>str(e)\<close>, then the hint exactly when the file is missing and its
  path, as \<open>Path\<close> prints it, is \<open>canvas_export.ics\<close>, and exits with status 1.
\<close>

theorem main_reports_errors:
  assumes "file_path = (if length argv > 1 then argv ! 1 else ''canvas_export.ics'')"
    and "parse_calendar w (path_str w file_path) = Inl e"
    and "(\<exists>m. e = FileNotFoundError m) \<or> (\<exists>m. e = ValueError m)"
  shows "main w argv =
     ([''Error: '' @ exn_str e] @
        (if path_exists w (path_str w file_path) = Inr False \<and>
            path_str w file_path = ''canvas_export.ics''
         then [hint] else []),
      Exit 1)"
proof -
  let ?p = "path_str w file_path"
  from parse_calendar_caught [OF assms(2,3)] consider
    (missing) "path_exists w ?p = Inr False"
      "e = FileNotFoundError (''Could not find ICS file: '' @ ?p)"
    | (invalid) x where "path_exists w ?p = Inr True"
      "e = ValueError (''Failed to parse ICS file: '' @ exn_str x)"
    by auto
  then show ?thesis
  proof cases
    case missing
    with assms(1,2) show ?thesis by (simp add: main_def report_error_def)
  next
    case invalid
    with assms(1,2) show ?thesis by (simp add: main_def report_error_def)
  qed
qed

text \<open>
  An example: five events on three dates, a calendar with an event without a title, one
  with an event without a start, and what is outside the program. A file name of more than
  255 characters is too long for \<open>stat\<close>.
\<close>

definition example_events :: "event list" where
  "example_events =
     [\<lparr>ev_begin = \<lparr>date_of = (2024, 9, 3), time_of = 82800\<rparr>,
       ev_name = ''[MATH-2164-001: Calculus] Homework 3''\<rparr>,
      \<lparr>ev_begin = \<lparr>date_of = (2024, 9, 1), time_of = 32400\<rparr>,
       ev_name = ''PAL session [MATH-2164-001: Calculus]''\<rparr>,
      \<lparr>ev_begin = \<lparr>date_of = (2024, 9, 3), time_of = 28800\<rparr>,
       ev_name = ''Essay draft''\<rparr>,
      \<lparr>ev_begin = \<lparr>date_of = (2024, 9, 2), time_of = 0\<rparr>,
       ev_name = ''Safety Training quiz''\<rparr>,
      \<lparr>ev_begin = \<lparr>date_of = (2024, 9, 1), time_of = 61200\<rparr>,
       ev_name = ''[Intro to Art - Fall 2024] Sketch''\<rparr>]"

definition untitled_events :: "ics_event list" where
  "untitled_events =
     [\<lparr>ics_begin = Some \<lparr>date_of = (2024, 9, 3), time_of = 82800\<rparr>, ics_name = None\<rparr>]"

definition undated_events :: "ics_event list" where
  "undated_events = [\<lparr>ics_begin = None, ics_name = Some ''Essay draft''\<rparr>]"

definition example_world :: world where
  "example_world =
     \<lparr>path_exists =
        (\<lambda>p. if length p > 255 then Inl ''[Errno 36] File name too long''
             else Inr (p \<in> {''calendar.ics'', ''notes.txt'', ''latin1.ics'',
                            ''untitled.ics'', ''undated.ics''})),
      read_text = (\<lambda>p. if p = ''latin1.ics''
                         then Inl (OtherError ''invalid start byte'')
                         else Inr p),
      Calendar = (\<lambda>c. if c = ''calendar.ics'' then Inr (map ics_of example_events)
                        else if c = ''untitled.ics'' then Inr untitled_events
                        else if c = ''undated.ics'' then Inr undated_events
                        else Inl (OtherError ''Expected BEGIN:VCALENDAR'')),
      path_str = (\<lambda>p. if p = ''./canvas_export.ics'' then ''canvas_export.ics'' else p),
      strftime = (\<lambda>d. if d = (2024, 9, 1) then ''September 01, 2024 (Sunday)''
                        else if d = (2024, 9, 3) then ''September 03, 2024 (Tuesday)''
                        else [])\<rparr>"

lemma example_loaded:
  "path_exists example_world ''calendar.ics'' = Inr True"
  "read_text example_world ''calendar.ics'' = Inr ''calendar.ics''"
  "Calendar example_world ''calendar.ics'' = Inr (map ics_of example_events)"
  by (simp_all add: example_world_def)

theorem parse_calendar_filter_witness:
  "\<exists>events_by_day. parse_calendar example_world ''calendar.ics'' = Inr events_by_day \<and>
     (\<forall>d. map_option (map Inr) (map_of events_by_day d) =
        (let kept = filter (\<lambda>e. date_of (ev_begin e) = d \<and>
                              \<not> sublist ''PAL'' (ev_name e) \<and>
                              \<not> sublist ''Training'' (ev_name e)) example_events
         in if kept = [] then None else Some (map (\<lambda>e. format_event (ev_name e)) kept)))"
  by (rule parse_calendar_filter [OF example_loaded])

theorem grouping_and_rendering_witness:
  "\<exists>events_by_day days.
     parse_calendar example_world ''calendar.ics'' = Inr events_by_day \<and>
     distinct (map fst events_by_day) \<and>
     (\<forall>d. map_of events_by_day d =
        (if labels_on example_events d = [] then None else Some (labels_on example_events d))) \<and>
     sorted_wrt (<) days \<and>
     set days = {d. labels_on example_events d \<noteq> []} \<and>
     render example_world events_by_day =
       concat (map (\<lambda>d. [[], ''-- '' @ strftime example_world d @ '' --'']
                          @ sort (labels_on example_events d)) days)"
  by (rule grouping_and_rendering [OF example_loaded])

theorem main_reports_errors_witness:
  "main example_world [''canvas_calendar_parser.py''] =
     ([''Error: Could not find ICS file: canvas_export.ics'', hint], Exit 1) \<and>
   main example_world [''canvas_calendar_parser.py'', ''missing.ics''] =
     ([''Error: Could not find ICS file: missing.ics''], Exit 1) \<and>
   main example_world [''canvas_calendar_parser.py'', ''notes.txt''] =
     ([''Error: Failed to parse ICS file: Expected BEGIN:VCALENDAR''], Exit 1)"
proof -
  have ps: "path_str example_world ''canvas_export.ics'' = ''canvas_export.ics''"
    "path_str example_world ''missing.ics'' = ''missing.ics''"
    "path_str example_world ''notes.txt'' = ''notes.txt''"
    by (simp_all add: example_world_def)
  have ex: "path_exists example_world ''canvas_export.ics'' = Inr False"
    "path_exists example_world ''missing.ics'' = Inr False"
    "path_exists example_world ''notes.txt'' = Inr True"
    by (simp_all add: example_world_def)
  have p1: "parse_calendar example_world (path_str example_world ''canvas_export.ics'') =
     Inl (FileNotFoundError ''Could not find ICS file: canvas_export.ics'')"
    unfolding ps using ex by (simp add: parse_calendar_def)
  have p2: "parse_calendar example_world (path_str example_world ''missing.ics'') =
     Inl (FileNotFoundError ''Could not find ICS file: missing.ics'')"
    unfolding ps using ex by (simp add: parse_calendar_def)
  have p3: "parse_calendar example_world (path_str example_world ''notes.txt'') =
     Inl (ValueError ''Failed to parse ICS file: Expected BEGIN:VCALENDAR'')"
    unfolding ps using ex by (simp add: parse_calendar_def example_world_def)
  have "main example_world [''canvas_calendar_parser.py''] =
     ([''Error: Could not find ICS file: canvas_export.ics'', hint], Exit 1)"
    using main_reports_errors [OF _ p1, of "[''canvas_calendar_parser.py'']"] ps ex by simp
  moreover have "main example_world [''canvas_calendar_parser.py'', ''missing.ics''] =
     ([''Error: Could not find ICS file: missing.ics''], Exit 1)"
    using main_reports_errors [OF _ p2, of "[''canvas_calendar_parser.py'', ''missing.ics'']"] ps ex
    by simp
  moreover have "main example_world [''canvas_calendar_parser.py'', ''notes.txt''] =
     ([''Error: Failed to parse ICS file: Expected BEGIN:VCALENDAR''], Exit 1)"
    using main_reports_errors [OF _ p3, of "[''canvas_calendar_parser.py'', ''notes.txt'']"] ps ex
    by simp
  ultimately show ?thesis by simp
qed

text \<open>
  C6: \<open>parse_calendar\<close> should raise \<open>FileNotFoundError\<close> for every path that does not
  exist. For a file name of 256 characters, which names no file, \<open>exists\<close> raises the
  \<open>OSError\<close> of \<open>stat\<close>; the call is outside the \<open>try\<close>, so \<open>parse_calendar\<close> raises that
  \<open>OSError\<close> and \<open>main\<close>, which catches \<open>FileNotFoundError\<close> and \<open>ValueError\<close> only, prints
  nothing.
\<close>

theorem parse_calendar_name_too_long:
  "parse_calendar example_world (replicate 256 CHR ''a'') =
     Inl (OSError ''[Errno 36] File name too long'') \<and>
   main example_world [''canvas_calendar_parser.py'', replicate 256 CHR ''a''] =
     ([], Uncaught (OSError ''[Errno 36] File name too long''))"
proof -
  let ?p = "replicate 256 CHR ''a''"
  have "length ?p \<noteq> length ''./canvas_export.ics''" by simp
  then have "?p \<noteq> ''./canvas_export.ics''" by metis
  then have ps: "path_str example_world ?p = ?p" by (simp add: example_world_def)
  have ex: "path_exists example_world ?p = Inl ''[Errno 36] File name too long''"
    by (simp add: example_world_def)
  have pc: "parse_calendar example_world ?p = Inl (OSError ''[Errno 36] File name too long'')"
    by (rule parse_calendar_stat_error [OF ex])
  then have "main example_world [''canvas_calendar_parser.py'', ?p] =
     ([], Uncaught (OSError ''[Errno 36] File name too long''))"
    by (simp add: main_def ps)
  with pc show ?thesis by simp
qed

text \<open>
  C10: \<open>parse_calendar\<close> should raise nothing but \<open>FileNotFoundError\<close> and \<open>ValueError\<close>.
  The loop over the events is after the \<open>try\<close>: for a calendar with an event without a
  title it raises \<open>TypeError\<close>, for one with an event without a start it raises
  \<open>AttributeError\<close>; and what \<open>exists\<close> raises before the \<open>try\<close> is an \<open>OSError\<close>. What
  reading the file raises inside the \<open>try\<close> becomes a \<open>ValueError\<close>.
\<close>

theorem parse_calendar_raises_other:
  "parse_calendar example_world ''untitled.ics'' = Inl (TypeError not_iterable) \<and>
   parse_calendar example_world ''undated.ics'' = Inl (AttributeError no_date_attribute) \<and>
   parse_calendar example_world (replicate 300 CHR ''a'') =
     Inl (OSError ''[Errno 36] File name too long'') \<and>
   parse_calendar example_world ''latin1.ics'' =
     Inl (ValueError ''Failed to parse ICS file: invalid start byte'')"
  by (simp add: parse_calendar_def example_world_def untitled_events_def undated_events_def)

end
